theory Spec2Isabelle
  imports Main "HOL-Library.Char_ord" "HOL-Library.List_Lexorder"
begin

section \<open>Strings and characters\<close>

text \<open>
  The program is \<^verbatim>\<open>postProcess/make_mp4.py\<close>. A Python \<^verbatim>\<open>str\<close> is a sequence of code
  points; here a file name is a \<^typ>\<open>string\<close> whose characters are the code points
  below 256 (Latin-1). On that range \<^verbatim>\<open>\d\<close> matches exactly \<^verbatim>\<open>0\<close>..\<^verbatim>\<open>9\<close>,
  \<^verbatim>\<open>str.lower\<close> maps \<^verbatim>\<open>A\<close>..\<^verbatim>\<open>Z\<close> and the accented capitals \<^verbatim>\<open>0xC0\<close>..\<^verbatim>\<open>0xDE\<close>
  (without \<^verbatim>\<open>0xD7\<close>) to the letter 32 places higher, and two characters are equal
  under \<^verbatim>\<open>re.IGNORECASE\<close> exactly when their lower-case forms are equal. Strings are
  compared as Python compares them: lexicographically by code point.
\<close>

definition lower_chr :: "char \<Rightarrow> char" where
  "lower_chr c =
     (let n = (of_char c :: nat)
      in if (65 \<le> n \<and> n \<le> 90) \<or> (192 \<le> n \<and> n \<le> 214) \<or> (216 \<le> n \<and> n \<le> 222)
         then char_of (n + 32) else c)"

definition lower :: "string \<Rightarrow> string" where
  "lower s = map lower_chr s"

definition is_digit :: "char \<Rightarrow> bool" where
  "is_digit c = (48 \<le> (of_char c :: nat) \<and> (of_char c :: nat) \<le> 57)"

definition newline :: char where
  "newline = CHR 0x0A"

text \<open>\<^verbatim>\<open>int(s)\<close> on a run of decimal digits, and \<^verbatim>\<open>str(n)\<close> on an integer.\<close>

definition digit_val :: "char \<Rightarrow> int" where
  "digit_val c = int (of_char c) - 48"

definition int_of_digits :: "string \<Rightarrow> int" where
  "int_of_digits ds = foldl (\<lambda>acc c. 10 * acc + digit_val c) 0 ds"

fun str_nat :: "nat \<Rightarrow> string" where
  "str_nat n = (if n < 10 then [char_of (48 + n)] else str_nat (n div 10) @ [char_of (48 + n mod 10)])"

declare str_nat.simps [simp del]

definition str_int :: "int \<Rightarrow> string" where
  "str_int i = (if i < 0 then CHR ''-'' # str_nat (nat (- i)) else str_nat (nat i))"

section \<open>The two regular expressions\<close>

text \<open>
  A literal of the pattern under \<^verbatim>\<open>re.IGNORECASE\<close>: it consumes one character of
  the subject for each of its own, equal up to letter case, and returns the rest.
\<close>

fun match_literal :: "string \<Rightarrow> string \<Rightarrow> string option" where
  "match_literal [] s = Some s"
| "match_literal (c # cs) [] = None"
| "match_literal (c # cs) (d # ds) =
     (if lower_chr c = lower_chr d then match_literal cs ds else None)"

text \<open>
  \<^verbatim>\<open>$\<close> without \<^verbatim>\<open>re.MULTILINE\<close> holds at the end of the subject and just before a
  line feed that is its last character.
\<close>

definition at_end :: "string \<Rightarrow> bool" where
  "at_end s = (s = [] \<or> s = [newline])"

text \<open>\<^verbatim>\<open>\.png$\<close>\<close>

definition match_ext :: "string \<Rightarrow> bool" where
  "match_ext s = (case match_literal ''.png'' s of Some r \<Rightarrow> at_end r | None \<Rightarrow> False)"

text \<open>
  \<^verbatim>\<open>(\d+)\.png$\<close>: the greedy \<^verbatim>\<open>\d+\<close> first takes every digit there is, then gives
  them back one at a time, down to one digit, until the rest of the pattern matches.
\<close>

fun digits_backtrack :: "nat \<Rightarrow> string \<Rightarrow> string option" where
  "digits_backtrack 0 s = None"
| "digits_backtrack (Suc k) s =
     (if match_ext (drop (Suc k) s) then Some (take (Suc k) s) else digits_backtrack k s)"

definition match_digits_ext :: "string \<Rightarrow> string option" where
  "match_digits_ext s = digits_backtrack (length (takeWhile is_digit s)) s"

text \<open>
  \<^verbatim>\<open>(.*?)(\d+)\.png$\<close>: the lazy \<^verbatim>\<open>.*?\<close> first tries the rest of the pattern where it
  stands, and only when that fails takes one more character, which must not be a line
  feed (\<^verbatim>\<open>.\<close> without \<^verbatim>\<open>re.DOTALL\<close>). The first argument is what group 1 holds so far.
\<close>

fun match_lazy :: "string \<Rightarrow> string \<Rightarrow> (string \<times> string) option" where
  "match_lazy pre [] = map_option (Pair pre) (match_digits_ext [])"
| "match_lazy pre (c # cs) =
     (case match_digits_ext (c # cs) of
        Some ds \<Rightarrow> Some (pre, ds)
      | None \<Rightarrow> if c = newline then None else match_lazy (pre @ [c]) cs)"

text \<open>
  \<^verbatim>\<open>re.compile(r"^(.*?)(\d+)\.png$", re.IGNORECASE).match(name)\<close>: groups 1 and 2 of the
  match, or \<open>None\<close>.
\<close>

definition r_match :: "string \<Rightarrow> (string \<times> string) option" where
  "r_match name = match_lazy [] name"

text \<open>
  \<^verbatim>\<open>re.compile(rf"^{re.escape(prefix)}(\d+)\.png$", re.IGNORECASE).match(name)\<close>: group 1
  of the match, or \<open>None\<close>. \<^verbatim>\<open>re.escape\<close> makes the prefix a literal.
\<close>

definition num_re_match :: "string \<Rightarrow> string \<Rightarrow> string option" where
  "num_re_match prefix name =
     (case match_literal prefix name of None \<Rightarrow> None | Some rest \<Rightarrow> match_digits_ext rest)"

section \<open>Inference of the naming scheme\<close>

text \<open>
  The ways in which the run fails, under the names the specification gives them:
  \<open>NotFoundError\<close>, \<open>EmptyInputError\<close> and \<open>ToolMissingError\<close> are the
  \<^verbatim>\<open>SystemExit\<close>s of lines 64, 69 and 73, \<open>InferenceError\<close> is the \<^verbatim>\<open>RuntimeError\<close> of
  line 36, \<open>EncodeError\<close> is the \<^verbatim>\<open>SystemExit\<close> of line 115 with \<^verbatim>\<open>e.returncode\<close>, and
  \<open>OutputVerificationError\<close> is the \<^verbatim>\<open>SystemExit\<close> of line 120.
\<close>

datatype error =
    NotFoundError
  | EmptyInputError
  | ToolMissingError
  | InferenceError
  | EncodeError int
  | OutputVerificationError

text \<open>
  The loop of \<^verbatim>\<open>infer_padding_and_prefix\<close> over the sorted names, and the
  \<^verbatim>\<open>RuntimeError\<close> after it.
\<close>

fun infer_loop :: "string list \<Rightarrow> error + (string \<times> int)" where
  "infer_loop [] = Inl InferenceError"
| "infer_loop (f # fs) =
     (case r_match f of
        Some (g1, g2) \<Rightarrow> Inr (g1, int (length g2))
      | None \<Rightarrow> infer_loop fs)"

definition infer_padding_and_prefix :: "string list \<Rightarrow> error + (string \<times> int)" where
  "infer_padding_and_prefix files = infer_loop (sort files)"

section \<open>The run\<close>

text \<open>
  \<^verbatim>\<open>Path.suffix\<close> of a name: \<^verbatim>\<open>i = name.rfind('.')\<close>, and \<^verbatim>\<open>name[i:]\<close> when
  \<^verbatim>\<open>0 < i < len(name) - 1\<close>, the empty string otherwise (pathlib up to Python 3.13).
\<close>

fun rfind :: "char \<Rightarrow> string \<Rightarrow> nat option" where
  "rfind c [] = None"
| "rfind c (x # xs) =
     (case rfind c xs of
        Some i \<Rightarrow> Some (Suc i)
      | None \<Rightarrow> if x = c then Some 0 else None)"

definition suffix :: "string \<Rightarrow> string" where
  "suffix name =
     (case rfind (CHR ''.'') name of
        Some i \<Rightarrow> if 0 < i \<and> i + 1 < length name then drop i name else []
      | None \<Rightarrow> [])"

text \<open>
  Lines 83 to 89 of \<^verbatim>\<open>main\<close>: the loop that appends \<^verbatim>\<open>int(m.group(1))\<close> for every
  name that \<^verbatim>\<open>num_re\<close> matches, then \<^verbatim>\<open>nums.sort()\<close>.
\<close>

fun nums_loop :: "string \<Rightarrow> string list \<Rightarrow> int list \<Rightarrow> int list" where
  "nums_loop pre [] nums = nums"
| "nums_loop pre (f # fs) nums =
     (case num_re_match pre f of
        Some g1 \<Rightarrow> nums_loop pre fs (nums @ [int_of_digits g1])
      | None \<Rightarrow> nums_loop pre fs nums)"

definition sorted_nums :: "string \<Rightarrow> string list \<Rightarrow> int list" where
  "sorted_nums pre pngs = sort (nums_loop pre pngs [])"

text \<open>
  Lines 90 to 93: \<^verbatim>\<open>gaps = [b for a,b in zip(nums, nums[1:]) if b != a+1]\<close>, and the
  warning is printed when \<^verbatim>\<open>len(nums) >= 2\<close> and \<^verbatim>\<open>gaps\<close> is not empty.
\<close>

definition gaps :: "int list \<Rightarrow> int list" where
  "gaps nums = map snd (filter (\<lambda>(a, b). b \<noteq> a + 1) (zip nums (tl nums)))"

definition gap_warning :: "int list \<Rightarrow> bool" where
  "gap_warning nums = (2 \<le> length nums \<and> gaps nums \<noteq> [])"

text \<open>Line 95: \<^verbatim>\<open>pattern = f"{prefix}%0{pad}d.png"\<close>.\<close>

definition build_pattern :: "string \<Rightarrow> int \<Rightarrow> string" where
  "build_pattern pre pad = pre @ ''%0'' @ str_int pad @ ''d.png''"

text \<open>
  The parsed command line, and what the run reads from its platform: the file system
  (\<open>iterdir\<close> gives the names of the entries of a directory, in any order;
  \<open>stat_size\<close> is the output path once the encoder has finished, \<open>None\<close> when it does
  not exist), the executable search path, pathlib's rendering of paths, and the exit
  status of the child process, which is taken to start and to finish. The entries of one
  directory are \<^verbatim>\<open>Path\<close>s that differ in their last component only, so sorting them is
  sorting their names (as POSIX paths, by code point).
\<close>

record args =
  arg_indir :: string
  arg_out :: string
  arg_prefix :: "string option"
  arg_pad :: "int option"
  arg_fps :: int
  arg_crf :: int
  arg_preset :: string

record platform =
  is_dir :: "string \<Rightarrow> bool"
  iterdir :: "string \<Rightarrow> string list"
  which :: "string \<Rightarrow> bool"
  joinpath :: "string \<Rightarrow> string \<Rightarrow> string"
  path_str :: "string \<Rightarrow> string"
  subprocess_run :: "string list \<Rightarrow> int"
  stat_size :: "string \<Rightarrow> nat option"
  resolve :: "string \<Rightarrow> string"

text \<open>
  What the run does that can be observed: the search for the encoder, the lines it
  prints, and the child process it starts.
\<close>

datatype message = Warn_gaps | Info_running "string list" | Ok_written string

datatype event = Which string | Print message | Run "string list"

text \<open>
  A \<^verbatim>\<open>SystemExit\<close> with a message and an exception that nothing catches both end the
  process with status 1; a run that reaches the end of \<^verbatim>\<open>main\<close> ends with status 0.
\<close>

definition exit_status :: "error + unit \<Rightarrow> int" where
  "exit_status r = (case r of Inl _ \<Rightarrow> 1 | Inr _ \<Rightarrow> 0)"

text \<open>Lines 76 to 79.\<close>

definition resolve_scheme :: "args \<Rightarrow> string list \<Rightarrow> error + (string \<times> int)" where
  "resolve_scheme a pngs =
     (if arg_prefix a = None \<or> arg_pad a = None then infer_padding_and_prefix pngs
      else Inr (the (arg_prefix a), the (arg_pad a)))"

text \<open>
  Lines 95 to 109: the pattern, the input pattern \<^verbatim>\<open>str(indir / pattern)\<close> and the
  argument list of the encoder.
\<close>

definition ffmpeg_cmd :: "args \<Rightarrow> platform \<Rightarrow> string \<Rightarrow> int \<Rightarrow> string list" where
  "ffmpeg_cmd a e pre pad =
     [''ffmpeg'', ''-y'', ''-framerate'', str_int (arg_fps a),
      ''-i'', joinpath e (arg_indir a) (build_pattern pre pad),
      ''-c:v'', ''libx264'', ''-preset'', arg_preset a, ''-crf'', str_int (arg_crf a),
      ''-pix_fmt'', ''yuv420p'', path_str e (arg_out a)]"

text \<open>Line 117: \<^verbatim>\<open>out_path.exists() and out_path.stat().st_size > 0\<close>.\<close>

definition output_ok :: "args \<Rightarrow> platform \<Rightarrow> bool" where
  "output_ok a e = (case stat_size e (arg_out a) of None \<Rightarrow> False | Some n \<Rightarrow> 0 < n)"

text \<open>
  Lines 83 to 120, once the naming scheme is known: the events in their order, and how
  the run ends.
\<close>

definition encode :: "args \<Rightarrow> platform \<Rightarrow> string list \<Rightarrow> string \<Rightarrow> int \<Rightarrow> event list \<times> (error + unit)" where
  "encode a e pngs pre pad =
     (let nums = sorted_nums pre pngs;
          warn = (if gap_warning nums then [Print Warn_gaps] else []);
          cmd = ffmpeg_cmd a e pre pad;
          t = warn @ [Print (Info_running cmd), Run cmd];
          rc = subprocess_run e cmd
      in if rc \<noteq> 0 then (t, Inl (EncodeError rc))
         else if output_ok a e then (t @ [Print (Ok_written (resolve e (arg_out a)))], Inr ())
         else (t, Inl OutputVerificationError))"

text \<open>Line 67: the sorted names of the directory's entries whose suffix is \<^verbatim>\<open>.png\<close>.\<close>

definition collect_pngs :: "args \<Rightarrow> platform \<Rightarrow> string list" where
  "collect_pngs a e = sort (filter (\<lambda>f. lower (suffix f) = ''.png'') (iterdir e (arg_indir a)))"

text \<open>Lines 60 to 120 of \<^verbatim>\<open>main\<close>, after the command line has been parsed.\<close>

definition main :: "args \<Rightarrow> platform \<Rightarrow> event list \<times> (error + unit)" where
  "main a e =
     (if \<not> is_dir e (arg_indir a) then ([], Inl NotFoundError)
      else let pngs = collect_pngs a e
       in if pngs = [] then ([], Inl EmptyInputError)
          else if \<not> which e ''ffmpeg'' then ([Which ''ffmpeg''], Inl ToolMissingError)
          else (case resolve_scheme a pngs of
                  Inl err \<Rightarrow> ([Which ''ffmpeg''], Inl err)
                | Inr (pre, pad) \<Rightarrow>
                    (case encode a e pngs pre pad of (t, r) \<Rightarrow> (Which ''ffmpeg'' # t, r))))"

definition is_run :: "event \<Rightarrow> bool" where
  "is_run ev = (case ev of Run _ \<Rightarrow> True | _ \<Rightarrow> False)"

section \<open>Example runs\<close>

text \<open>
  The defaults of the command line, and a platform on which the directory
  \<^verbatim>\<open>frames_png\<close> holds the given names, the encoder is installed and exits with the
  given status, and the output path is then in the given state.
\<close>

definition example_args :: args where
  "example_args = \<lparr>arg_indir = ''frames_png'', arg_out = ''dropfilm.mp4'', arg_prefix = None,
     arg_pad = None, arg_fps = 30, arg_crf = 18, arg_preset = ''medium''\<rparr>"

definition example_platform :: "string list \<Rightarrow> int \<Rightarrow> nat option \<Rightarrow> platform" where
  "example_platform names rc sz =
     \<lparr>is_dir = (\<lambda>d. d = ''frames_png''), iterdir = (\<lambda>d. names), which = (\<lambda>n. n = ''ffmpeg''),
      joinpath = (\<lambda>d f. d @ ''/'' @ f), path_str = (\<lambda>p. p), subprocess_run = (\<lambda>c. rc),
      stat_size = (\<lambda>p. sz), resolve = (\<lambda>p. ''/work/'' @ p)\<rparr>"

section \<open>The invariant of the naming scheme, in the words of the specification\<close>

text \<open>
  These two predicates follow the specification's data model, not the code, which has
  no such check: the padding width is at least the number of digits of the largest
  observed frame number, and the prefix exactly precedes the numeric component of every
  matched file.
\<close>

definition pad_covers_largest :: "int list \<Rightarrow> int \<Rightarrow> bool" where
  "pad_covers_largest nums pad = (nums = [] \<or> int (length (str_int (Max (set nums)))) \<le> pad)"

definition prefix_exactly_precedes :: "string list \<Rightarrow> string \<Rightarrow> bool" where
  "prefix_exactly_precedes pngs pre =
     list_all (\<lambda>f. num_re_match pre f = None \<or> take (length pre) f = pre) pngs"

section \<open>Facts about the regular expressions\<close>

lemma lower_chr_digit: "is_digit d \<Longrightarrow> lower_chr d = d"
  by (simp add: is_digit_def lower_chr_def)

lemma lower_chr_dot: "lower_chr (CHR ''.'') = CHR ''.''"
  by (simp add: lower_chr_def)

lemma digit_not_dot: "is_digit d \<Longrightarrow> d \<noteq> CHR ''.''"
  by (auto simp: is_digit_def)

lemma digit_not_newline: "is_digit d \<Longrightarrow> d \<noteq> newline"
  by (auto simp: is_digit_def newline_def)

lemma lower_png: "lower ''.png'' = ''.png''"
  by (simp add: lower_def lower_chr_def)

lemma match_literal_iff:
  "match_literal lit s = Some r \<longleftrightarrow>
     length lit \<le> length s \<and> lower (take (length lit) s) = lower lit \<and> r = drop (length lit) s"
  by (induction lit s rule: match_literal.induct) (auto simp: lower_def)

lemma match_literal_png:
  "match_literal ''.png'' s = Some r \<longleftrightarrow>
     4 \<le> length s \<and> lower (take 4 s) = ''.png'' \<and> r = drop 4 s"
  using match_literal_iff[of "''.png''" s r] by (simp add: lower_png eval_nat_numeral)

lemma lower_take4_length: "lower (take 4 s) = ''.png'' \<Longrightarrow> 4 \<le> length s"
proof -
  assume "lower (take 4 s) = ''.png''"
  then have "length (lower (take 4 s)) = 4" by simp
  then show ?thesis by (simp add: lower_def)
qed

lemma match_ext_iff: "match_ext s \<longleftrightarrow> lower (take 4 s) = ''.png'' \<and> at_end (drop 4 s)"
proof (cases "match_literal ''.png'' s")
  case None
  then have "\<not> (4 \<le> length s \<and> lower (take 4 s) = ''.png'')"
    using match_literal_png[of s "drop 4 s"] by simp
  then have "lower (take 4 s) \<noteq> ''.png''" using lower_take4_length by blast
  then show ?thesis using None by (simp add: match_ext_def)
next
  case (Some r)
  then have "lower (take 4 s) = ''.png''" "r = drop 4 s"
    by (simp_all add: match_literal_png)
  then show ?thesis using Some by (simp add: match_ext_def)
qed

lemma match_ext_length: "match_ext s \<Longrightarrow> 4 \<le> length s \<and> length s \<le> 5"
proof -
  assume m: "match_ext s"
  then have 1: "4 \<le> length s" by (simp add: match_ext_iff lower_take4_length)
  have "drop 4 s = [] \<or> drop 4 s = [newline]" using m by (simp add: match_ext_iff at_end_def)
  then have "length (drop 4 s) \<le> length [newline]" by (elim disjE) (simp_all only: list.size)
  with 1 show ?thesis by simp
qed

lemma dot_not_digit: "\<not> is_digit (CHR ''.'')"
  by (simp add: is_digit_def)

lemma match_ext_digit: "is_digit d \<Longrightarrow> \<not> match_ext (d # s)"
  using dot_not_digit by (auto simp: match_ext_def lower_chr_digit lower_chr_dot)

lemma digits_backtrack_short:
  "k < length (takeWhile is_digit s) \<Longrightarrow> digits_backtrack k s = None"
proof (induction k)
  case 0
  then show ?case by simp
next
  case (Suc k)
  let ?n = "length (takeWhile is_digit s)"
  have lt: "Suc k < ?n" using Suc.prems .
  have "?n \<le> length s" by (rule length_takeWhile_le)
  with lt have "Suc k < length s" by simp
  then have d: "drop (Suc k) s = s ! Suc k # drop (Suc (Suc k)) s"
    by (simp add: Cons_nth_drop_Suc)
  have "s ! Suc k = takeWhile is_digit s ! Suc k" using lt by (simp add: takeWhile_nth)
  then have "is_digit (s ! Suc k)" using lt nth_mem set_takeWhileD by metis
  then have "\<not> match_ext (drop (Suc k) s)" unfolding d by (rule match_ext_digit)
  then show ?case using Suc.IH lt by simp
qed

lemma match_digits_ext_eq:
  "match_digits_ext s =
     (if takeWhile is_digit s \<noteq> [] \<and> match_ext (dropWhile is_digit s)
      then Some (takeWhile is_digit s) else None)"
proof (cases "length (takeWhile is_digit s)")
  case 0
  then show ?thesis by (simp add: match_digits_ext_def)
next
  case (Suc k)
  have t: "take (Suc k) s = takeWhile is_digit s"
    using Suc by (metis takeWhile_eq_take)
  have d: "drop (Suc k) s = dropWhile is_digit s"
    using Suc by (metis dropWhile_eq_drop)
  have "digits_backtrack k s = None" using Suc by (simp add: digits_backtrack_short)
  moreover have "takeWhile is_digit s \<noteq> []" using Suc by auto
  ultimately show ?thesis by (simp add: match_digits_ext_def Suc t d)
qed

lemma match_digits_ext_iff:
  "match_digits_ext s = Some ds \<longleftrightarrow>
     ds \<noteq> [] \<and> ds = takeWhile is_digit s \<and> match_ext (dropWhile is_digit s)"
proof (cases "takeWhile is_digit s \<noteq> [] \<and> match_ext (dropWhile is_digit s)")
  case True
  then have "match_digits_ext s = Some (takeWhile is_digit s)" by (simp add: match_digits_ext_eq)
  with True show ?thesis by auto
next
  case False
  then have "match_digits_ext s = None" by (simp add: match_digits_ext_eq)
  with False show ?thesis by (metis option.distinct(1))
qed

lemma match_digits_ext_decomp:
  "match_digits_ext s = Some ds \<longleftrightarrow>
     ds \<noteq> [] \<and> (\<forall>d \<in> set ds. is_digit d) \<and> (\<exists>x. s = ds @ x \<and> match_ext x)"
proof
  assume "match_digits_ext s = Some ds"
  then have 1: "ds \<noteq> []" "ds = takeWhile is_digit s" "match_ext (dropWhile is_digit s)"
    unfolding match_digits_ext_iff by blast+
  have "s = ds @ dropWhile is_digit s" using 1(2) by simp
  moreover have "\<forall>d \<in> set ds. is_digit d" using 1(2) by (auto dest: set_takeWhileD)
  ultimately show "ds \<noteq> [] \<and> (\<forall>d \<in> set ds. is_digit d) \<and> (\<exists>x. s = ds @ x \<and> match_ext x)"
    using 1 by blast
next
  assume "ds \<noteq> [] \<and> (\<forall>d \<in> set ds. is_digit d) \<and> (\<exists>x. s = ds @ x \<and> match_ext x)"
  then obtain x where h: "ds \<noteq> []" "\<forall>d \<in> set ds. is_digit d" "s = ds @ x" "match_ext x" by blast
  have "x \<noteq> []" using h(4) match_ext_length[of x] by auto
  then obtain c y where x: "x = c # y" by (cases x) auto
  have "\<not> is_digit c" using h(4) match_ext_digit x by blast
  then have "takeWhile is_digit s = ds" "dropWhile is_digit s = x"
    using h(2,3) x by (simp_all add: takeWhile_append2 dropWhile_append2)
  then show "match_digits_ext s = Some ds" using h by (simp add: match_digits_ext_iff)
qed

lemma match_digits_ext_Nil: "match_digits_ext [] = None"
  by (simp add: match_digits_ext_def)

lemma match_lazy_sound:
  "match_lazy pre s = Some (p, ds) \<Longrightarrow>
     \<exists>q r. s = q @ r \<and> p = pre @ q \<and> newline \<notin> set q \<and> match_digits_ext r = Some ds
       \<and> (\<forall>i < length q. match_digits_ext (drop i s) = None)"
proof (induction s arbitrary: pre)
  case Nil
  then show ?case by (simp add: match_digits_ext_Nil)
next
  case (Cons c cs)
  show ?case
  proof (cases "match_digits_ext (c # cs)")
    case (Some ds')
    with Cons.prems have "p = pre" "ds' = ds" by simp_all
    with Some have "c # cs = [] @ (c # cs) \<and> p = pre @ [] \<and> newline \<notin> set []
        \<and> match_digits_ext (c # cs) = Some ds
        \<and> (\<forall>i < length ([]::string). match_digits_ext (drop i (c # cs)) = None)"
      by simp
    then show ?thesis by blast
  next
    case None
    with Cons.prems have c: "c \<noteq> newline" and m: "match_lazy (pre @ [c]) cs = Some (p, ds)"
      by (simp_all split: if_splits)
    from Cons.IH[OF m] obtain q r where q: "cs = q @ r" "p = (pre @ [c]) @ q" "newline \<notin> set q"
      "match_digits_ext r = Some ds" "\<forall>i < length q. match_digits_ext (drop i cs) = None"
      by blast
    have "\<forall>i < length (c # q). match_digits_ext (drop i (c # cs)) = None"
    proof (intro allI impI)
      fix i assume "i < length (c # q)"
      then show "match_digits_ext (drop i (c # cs)) = None"
        using None q(5) by (cases i) simp_all
    qed
    then have "c # cs = (c # q) @ r \<and> p = pre @ (c # q) \<and> newline \<notin> set (c # q)
        \<and> match_digits_ext r = Some ds
        \<and> (\<forall>i < length (c # q). match_digits_ext (drop i (c # cs)) = None)"
      using q c by simp
    then show ?thesis by blast
  qed
qed

lemma match_lazy_complete:
  "newline \<notin> set q \<Longrightarrow> match_digits_ext r = Some ds
     \<Longrightarrow> \<forall>i < length q. match_digits_ext (drop i (q @ r)) = None
     \<Longrightarrow> match_lazy pre (q @ r) = Some (pre @ q, ds)"
proof (induction q arbitrary: pre)
  case Nil
  then have "r \<noteq> []" by (auto simp: match_digits_ext_Nil)
  then obtain c cs where "r = c # cs" by (cases r) auto
  with Nil show ?case by simp
next
  case (Cons c q)
  have 0: "match_digits_ext (c # q @ r) = None" using Cons.prems(3) by force
  have n: "\<forall>i < length q. match_digits_ext (drop i (q @ r)) = None"
  proof (intro allI impI)
    fix i assume "i < length q"
    then have "Suc i < length (c # q)" by simp
    then have "match_digits_ext (drop (Suc i) ((c # q) @ r)) = None" using Cons.prems(3) by blast
    then show "match_digits_ext (drop i (q @ r)) = None" by simp
  qed
  have "match_lazy (pre @ [c]) (q @ r) = Some ((pre @ [c]) @ q, ds)"
    using Cons.IH[OF _ Cons.prems(2) n] Cons.prems(1) by simp
  then show ?case using 0 Cons.prems(1) by auto
qed

lemma r_match_iff:
  "r_match f = Some (p, ds) \<longleftrightarrow>
     (\<exists>e. f = p @ ds @ e \<and> match_ext e) \<and> ds \<noteq> [] \<and> (\<forall>d \<in> set ds. is_digit d)
     \<and> newline \<notin> set p \<and> (p = [] \<or> \<not> is_digit (last p))"
proof
  assume "r_match f = Some (p, ds)"
  then obtain q r where q: "f = q @ r" "p = q" "newline \<notin> set q" "match_digits_ext r = Some ds"
      "\<forall>i < length q. match_digits_ext (drop i f) = None"
    unfolding r_match_def using match_lazy_sound[of "[]" f p ds] by auto
  from q(4) obtain x where x: "ds \<noteq> []" "\<forall>d \<in> set ds. is_digit d" "r = ds @ x" "match_ext x"
    unfolding match_digits_ext_decomp by blast
  have "p = [] \<or> \<not> is_digit (last p)"
  proof (rule ccontr)
    assume "\<not> (p = [] \<or> \<not> is_digit (last p))"
    then have ne: "p \<noteq> []" and dg: "is_digit (last p)" by simp_all
    have "drop (length p - 1) f = last p # r"
      using ne q(1,2) by (metis append_butlast_last_id append_Cons append_Nil append_assoc
          append_eq_conv_conj length_butlast)
    then have "drop (length p - 1) f = (last p # ds) @ x" using x(3) by simp
    then have "match_digits_ext (drop (length p - 1) f) = Some (last p # ds)"
      using x dg unfolding match_digits_ext_decomp by auto
    moreover have "length p - 1 < length q" using ne q(2) by (cases p) auto
    ultimately show False using q(5) by auto
  qed
  then show "(\<exists>e. f = p @ ds @ e \<and> match_ext e) \<and> ds \<noteq> [] \<and> (\<forall>d \<in> set ds. is_digit d)
     \<and> newline \<notin> set p \<and> (p = [] \<or> \<not> is_digit (last p))"
    using q x by auto
next
  assume "(\<exists>e. f = p @ ds @ e \<and> match_ext e) \<and> ds \<noteq> [] \<and> (\<forall>d \<in> set ds. is_digit d)
     \<and> newline \<notin> set p \<and> (p = [] \<or> \<not> is_digit (last p))"
  then obtain e where h: "f = p @ ds @ e" "match_ext e" "ds \<noteq> []" "\<forall>d \<in> set ds. is_digit d"
      "newline \<notin> set p" "p = [] \<or> \<not> is_digit (last p)"
    by blast
  have m: "match_digits_ext (ds @ e) = Some ds"
    using h unfolding match_digits_ext_decomp by blast
  have "\<forall>i < length p. match_digits_ext (drop i (p @ ds @ e)) = None"
  proof (intro allI impI)
    fix i assume i: "i < length p"
    let ?t = "drop i p"
    have ne: "?t \<noteq> []" using i by simp
    then have "last ?t = last p" using i by simp
    then have nd: "\<not> is_digit (last ?t)" using h(6) i by auto
    have "last ?t \<in> set ?t" using ne by (rule last_in_set)
    with nd have tw: "takeWhile is_digit (?t @ ds @ e) = takeWhile is_digit ?t"
      and dw: "dropWhile is_digit (?t @ ds @ e) = dropWhile is_digit ?t @ ds @ e"
      by (simp_all add: takeWhile_append1 dropWhile_append1)
    have "dropWhile is_digit ?t \<noteq> []"
      using \<open>last ?t \<in> set ?t\<close> nd by (auto simp: dropWhile_eq_Nil_conv)
    then have "1 \<le> length (dropWhile is_digit ?t)" by (cases "dropWhile is_digit ?t") auto
    moreover have "1 \<le> length ds" using h(3) by (cases ds) auto
    moreover have "4 \<le> length e" using h(2) match_ext_length by blast
    ultimately have "5 < length (dropWhile is_digit (?t @ ds @ e))" unfolding dw by simp
    then have "\<not> match_ext (dropWhile is_digit (?t @ ds @ e))"
      using match_ext_length by fastforce
    then have "match_digits_ext (?t @ ds @ e) = None" by (simp add: match_digits_ext_eq)
    then show "match_digits_ext (drop i (p @ ds @ e)) = None" using i by simp
  qed
  then have "match_lazy [] (p @ ds @ e) = Some ([] @ p, ds)"
    using match_lazy_complete[OF h(5) m] by blast
  then show "r_match f = Some (p, ds)" using h(1) by (simp add: r_match_def)
qed

lemma trailing_digits_split:
  "\<exists>p0 dd. p = p0 @ dd \<and> (\<forall>d \<in> set dd. is_digit d) \<and> (p0 = [] \<or> \<not> is_digit (last p0))"
proof (induction p rule: rev_induct)
  case Nil
  then show ?case by simp
next
  case (snoc c p)
  then obtain p0 dd where h: "p = p0 @ dd" "\<forall>d \<in> set dd. is_digit d"
      "p0 = [] \<or> \<not> is_digit (last p0)" by blast
  show ?case
  proof (cases "is_digit c")
    case True
    then have "p @ [c] = p0 @ (dd @ [c]) \<and> (\<forall>d \<in> set (dd @ [c]). is_digit d)"
      using h by simp
    with h(3) show ?thesis by blast
  next
    case False
    then have "p @ [c] = (p @ [c]) @ [] \<and> (\<forall>d \<in> set ([]::string). is_digit d)
       \<and> (p @ [c] = [] \<or> \<not> is_digit (last (p @ [c])))" by simp
    then show ?thesis by blast
  qed
qed

lemma r_match_exists_iff:
  "r_match f \<noteq> None \<longleftrightarrow>
     (\<exists>p ds e. f = p @ ds @ e \<and> newline \<notin> set p \<and> ds \<noteq> [] \<and> (\<forall>d \<in> set ds. is_digit d)
        \<and> match_ext e)"
proof
  assume "r_match f \<noteq> None"
  then obtain p ds where "r_match f = Some (p, ds)" by auto
  then show "\<exists>p ds e. f = p @ ds @ e \<and> newline \<notin> set p \<and> ds \<noteq> [] \<and> (\<forall>d \<in> set ds. is_digit d)
        \<and> match_ext e"
    unfolding r_match_iff by blast
next
  assume "\<exists>p ds e. f = p @ ds @ e \<and> newline \<notin> set p \<and> ds \<noteq> [] \<and> (\<forall>d \<in> set ds. is_digit d)
        \<and> match_ext e"
  then obtain p ds e where h: "f = p @ ds @ e" "newline \<notin> set p" "ds \<noteq> []"
      "\<forall>d \<in> set ds. is_digit d" "match_ext e" by blast
  obtain p0 dd where s: "p = p0 @ dd" "\<forall>d \<in> set dd. is_digit d"
      "p0 = [] \<or> \<not> is_digit (last p0)"
    using trailing_digits_split by blast
  have "(\<exists>e. f = p0 @ (dd @ ds) @ e \<and> match_ext e) \<and> dd @ ds \<noteq> []
      \<and> (\<forall>d \<in> set (dd @ ds). is_digit d) \<and> newline \<notin> set p0
      \<and> (p0 = [] \<or> \<not> is_digit (last p0))"
    using h s by auto
  then have "r_match f = Some (p0, dd @ ds)" unfolding r_match_iff .
  then show "r_match f \<noteq> None" by simp
qed

lemma num_re_match_iff:
  "num_re_match pre f = Some ds \<longleftrightarrow>
     (\<exists>q x. f = q @ ds @ x \<and> length q = length pre \<and> lower q = lower pre \<and> match_ext x)
     \<and> ds \<noteq> [] \<and> (\<forall>d \<in> set ds. is_digit d)"
proof
  assume m: "num_re_match pre f = Some ds"
  then obtain r where r: "match_literal pre f = Some r" "match_digits_ext r = Some ds"
    by (auto simp: num_re_match_def split: option.splits)
  from r(1) have l: "length pre \<le> length f" "lower (take (length pre) f) = lower pre"
      "r = drop (length pre) f"
    unfolding match_literal_iff by blast+
  from r(2) obtain x where x: "ds \<noteq> []" "\<forall>d \<in> set ds. is_digit d" "r = ds @ x" "match_ext x"
    unfolding match_digits_ext_decomp by blast
  have "f = take (length pre) f @ ds @ x" using l(3) x(3) by (metis append_take_drop_id)
  moreover have "length (take (length pre) f) = length pre" using l(1) by simp
  ultimately show "(\<exists>q x. f = q @ ds @ x \<and> length q = length pre \<and> lower q = lower pre \<and> match_ext x)
     \<and> ds \<noteq> [] \<and> (\<forall>d \<in> set ds. is_digit d)"
    using l(2) x by blast
next
  assume "(\<exists>q x. f = q @ ds @ x \<and> length q = length pre \<and> lower q = lower pre \<and> match_ext x)
     \<and> ds \<noteq> [] \<and> (\<forall>d \<in> set ds. is_digit d)"
  then obtain q x where h: "f = q @ ds @ x" "length q = length pre" "lower q = lower pre"
      "match_ext x" "ds \<noteq> []" "\<forall>d \<in> set ds. is_digit d" by blast
  have "match_literal pre f = Some (ds @ x)"
    unfolding match_literal_iff using h(1,2,3) by simp
  moreover have "match_digits_ext (ds @ x) = Some ds"
    unfolding match_digits_ext_decomp using h(4,5,6) by blast
  ultimately show "num_re_match pre f = Some ds" by (simp add: num_re_match_def)
qed

lemma r_match_num_re_match: "r_match f = Some (p, ds) \<Longrightarrow> num_re_match p f = Some ds"
  unfolding r_match_iff num_re_match_iff by blast

lemma lower_chr_g: "lower_chr c = CHR ''g'' \<Longrightarrow> c \<noteq> newline"
  by (auto simp: lower_chr_def newline_def)

lemma match_ext_no_newline:
  assumes "match_ext x" and "last x \<noteq> newline"
  shows "lower x = ''.png''"
proof -
  from assms(1) have t: "lower (take 4 x) = ''.png''" and e: "at_end (drop 4 x)"
    by (simp_all add: match_ext_iff)
  have "drop 4 x \<noteq> [newline]"
  proof
    assume d: "drop 4 x = [newline]"
    then have "x = take 4 x @ [newline]" by (metis append_take_drop_id)
    then have "last x = newline" by (metis last_snoc)
    with assms(2) show False by simp
  qed
  with e have "drop 4 x = []" by (simp add: at_end_def)
  then have "take 4 x = x" by (metis append_take_drop_id append_Nil2)
  with t show ?thesis by simp
qed

lemma lower_png_match_ext: "lower x = ''.png'' \<Longrightarrow> match_ext x"
proof -
  assume a: "lower x = ''.png''"
  then have "length (lower x) = 4" by simp
  then have "length x = 4" by (simp add: lower_def)
  then show ?thesis using a by (simp add: match_ext_iff at_end_def)
qed

section \<open>Facts about the inference and the sequence\<close>

lemma infer_loop_first:
  "\<forall>u \<in> set us. r_match u = None \<Longrightarrow> r_match f = Some (p, ds)
     \<Longrightarrow> infer_loop (us @ f # vs) = Inr (p, int (length ds))"
  by (induction us) simp_all

lemma infer_loop_fail:
  "infer_loop fs = Inl err \<longleftrightarrow> err = InferenceError \<and> (\<forall>f \<in> set fs. r_match f = None)"
  by (induction fs) (auto split: option.splits)

lemma infer_loop_success:
  "infer_loop fs = Inr (p, w) \<Longrightarrow>
     \<exists>us f vs ds. fs = us @ f # vs \<and> (\<forall>u \<in> set us. r_match u = None)
        \<and> r_match f = Some (p, ds) \<and> w = int (length ds)"
proof (induction fs)
  case Nil
  then show ?case by simp
next
  case (Cons g gs)
  show ?case
  proof (cases "r_match g")
    case None
    with Cons.prems have "infer_loop gs = Inr (p, w)" by simp
    from Cons.IH[OF this] obtain us f vs ds where
      h: "gs = us @ f # vs" "\<forall>u \<in> set us. r_match u = None" "r_match f = Some (p, ds)"
         "w = int (length ds)"
      by blast
    have "g # gs = (g # us) @ f # vs \<and> (\<forall>u \<in> set (g # us). r_match u = None)"
      using h None by simp
    with h show ?thesis by blast
  next
    case (Some m)
    obtain g1 g2 where m: "m = (g1, g2)" by (cases m)
    with Some Cons.prems have "g1 = p" "w = int (length g2)" by simp_all
    with Some m have "g # gs = [] @ g # gs \<and> (\<forall>u \<in> set []. r_match u = None)
        \<and> r_match g = Some (p, g2) \<and> w = int (length g2)" by simp
    then show ?thesis by blast
  qed
qed

lemma nums_loop_eq:
  "nums_loop pre fs acc =
     acc @ List.map_filter (\<lambda>f. map_option int_of_digits (num_re_match pre f)) fs"
  by (induction fs arbitrary: acc) (auto simp: map_filter_simps split: option.splits)

lemma sorted_nums_eq:
  "sorted_nums pre pngs =
     sort (List.map_filter (\<lambda>f. map_option int_of_digits (num_re_match pre f)) pngs)"
  by (simp add: sorted_nums_def nums_loop_eq)

lemma png_suffix_last:
  assumes "lower (suffix f) = ''.png''"
  shows "f \<noteq> [] \<and> last f \<noteq> newline"
proof -
  from assms obtain i where i: "suffix f = drop i f" "drop i f \<noteq> []"
    by (auto simp: suffix_def lower_def split: option.splits if_splits)
  then have ne: "f \<noteq> []" by auto
  have "last (drop i f) = last f" using i(2) by simp
  moreover have "lower_chr (last (drop i f)) = last (lower (drop i f))"
    using i(2) by (simp add: lower_def last_map)
  moreover have "last (lower (drop i f)) = CHR ''g''" using assms i(1) by simp
  ultimately have "lower_chr (last f) = CHR ''g''" by simp
  then show ?thesis using ne lower_chr_g by blast
qed

lemma num_re_match_enumerated:
  assumes "lower (suffix f) = ''.png''"
  shows "num_re_match pre f = Some ds \<longleftrightarrow>
     (\<exists>q x. f = q @ ds @ x \<and> length q = length pre \<and> lower q = lower pre \<and> lower x = ''.png'')
     \<and> ds \<noteq> [] \<and> (\<forall>d \<in> set ds. is_digit d)"
proof -
  have "match_ext x \<longleftrightarrow> lower x = ''.png''" if "f = q @ ds @ x" for q x
  proof
    assume m: "match_ext x"
    then have "x \<noteq> []" using match_ext_length[of x] by auto
    then have "last f = last x" using that by simp
    then have "last x \<noteq> newline" using png_suffix_last[OF assms] by simp
    with m show "lower x = ''.png''" by (rule match_ext_no_newline)
  qed (rule lower_png_match_ext)
  then show ?thesis unfolding num_re_match_iff by blast
qed

lemma int_of_digits_snoc: "int_of_digits (ds @ [c]) = 10 * int_of_digits ds + digit_val c"
  by (simp add: int_of_digits_def)

lemma digit_val_char_of: "n < 10 \<Longrightarrow> digit_val (char_of (48 + n)) = int n"
  by (simp add: digit_val_def)

lemma int_of_digits_str_nat: "int_of_digits (str_nat n) = int n"
proof (induction n rule: str_nat.induct)
  case (1 n)
  show ?case
  proof (cases "n < 10")
    case True
    then have "str_nat n = [char_of (48 + n)]" by (simp add: str_nat.simps)
    then show ?thesis using True int_of_digits_snoc[of "[]"] digit_val_char_of
      by (simp add: int_of_digits_def)
  next
    case False
    then have s: "str_nat n = str_nat (n div 10) @ [char_of (48 + n mod 10)]"
      by (subst str_nat.simps) simp
    have "int_of_digits (str_nat (n div 10)) = int (n div 10)" using "1.IH" False by simp
    moreover have "10 * int (n div 10) + int (n mod 10) = int n" by presburger
    ultimately show ?thesis
      unfolding s int_of_digits_snoc by (simp add: digit_val_char_of)
  qed
qed

lemma int_of_digits_zeros:
  "int_of_digits (replicate k (CHR ''0'') @ ds) = int_of_digits ds"
proof (induction k)
  case 0
  then show ?case by simp
next
  case (Suc k)
  have "int_of_digits (CHR ''0'' # xs) = int_of_digits xs" for xs
    by (simp add: int_of_digits_def digit_val_def)
  then show ?case using Suc by simp
qed

lemma digit_val_range: "is_digit c \<Longrightarrow> 0 \<le> digit_val c \<and> digit_val c \<le> 9"
  by (auto simp: is_digit_def digit_val_def)

lemma int_of_digits_bounds:
  "\<forall>d \<in> set ds. is_digit d \<Longrightarrow> 0 \<le> int_of_digits ds \<and> int_of_digits ds < 10 ^ length ds"
proof (induction ds rule: rev_induct)
  case Nil
  then show ?case by (simp add: int_of_digits_def)
next
  case (snoc c ds)
  then have ih: "0 \<le> int_of_digits ds" "int_of_digits ds < 10 ^ length ds" by simp_all
  have c: "0 \<le> digit_val c" "digit_val c \<le> 9" using snoc.prems digit_val_range by simp_all
  have "int_of_digits ds + 1 \<le> 10 ^ length ds" using ih(2) by simp
  then have "10 * (int_of_digits ds + 1) \<le> 10 * 10 ^ length ds" by simp
  then show ?case unfolding int_of_digits_snoc using ih(1) c by simp
qed

lemma length_str_nat: "0 < k \<Longrightarrow> n < 10 ^ k \<Longrightarrow> length (str_nat n) \<le> k"
proof (induction n arbitrary: k rule: str_nat.induct)
  case (1 n)
  show ?case
  proof (cases "n < 10")
    case True
    then have "str_nat n = [char_of (48 + n)]" by (simp add: str_nat.simps)
    then show ?thesis using "1.prems"(1) by simp
  next
    case False
    then have s: "str_nat n = str_nat (n div 10) @ [char_of (48 + n mod 10)]"
      by (subst str_nat.simps) simp
    obtain j where j: "k = Suc j" using "1.prems"(1) by (cases k) auto
    have "j \<noteq> 0" using False "1.prems"(2) j by (cases j) auto
    then have j0: "0 < j" by simp
    have "n < 10 * 10 ^ j" using "1.prems"(2) j by simp
    then have "n div 10 < 10 ^ j" by (simp add: less_mult_imp_div_less mult.commute)
    then have "length (str_nat (n div 10)) \<le> j" using "1.IH"[OF False j0] by simp
    then show ?thesis unfolding s j by simp
  qed
qed

lemma frame_number_digits:
  assumes "ds \<noteq> []" and "\<forall>d \<in> set ds. is_digit d"
  shows "length (str_int (int_of_digits ds)) \<le> length ds"
proof -
  have b: "0 \<le> int_of_digits ds" "int_of_digits ds < 10 ^ length ds"
    using int_of_digits_bounds[OF assms(2)] by simp_all
  then have "nat (int_of_digits ds) < 10 ^ length ds"
    by (metis nat_less_iff of_nat_numeral of_nat_power)
  moreover have "0 < length ds" using assms(1) by simp
  ultimately have "length (str_nat (nat (int_of_digits ds))) \<le> length ds"
    by (rule length_str_nat[rotated])
  then show ?thesis using b(1) by (simp add: str_int_def)
qed

section \<open>Facts about the run\<close>

lemma collect_pngs_empty:
  "collect_pngs a e = [] \<longleftrightarrow> (\<forall>f \<in> set (iterdir e (arg_indir a)). lower (suffix f) \<noteq> ''.png'')"
proof -
  have "collect_pngs a e = [] \<longleftrightarrow> set (collect_pngs a e) = {}" by simp
  also have "\<dots> \<longleftrightarrow> (\<forall>f \<in> set (iterdir e (arg_indir a)). lower (suffix f) \<noteq> ''.png'')"
    unfolding collect_pngs_def set_sort by auto
  finally show ?thesis .
qed

lemma encode_trace:
  "fst (encode a e pngs pre pad) =
     (if gap_warning (sorted_nums pre pngs) then [Print Warn_gaps] else []) @
     [Print (Info_running (ffmpeg_cmd a e pre pad)), Run (ffmpeg_cmd a e pre pad)] @
     (if subprocess_run e (ffmpeg_cmd a e pre pad) = 0 \<and> output_ok a e
      then [Print (Ok_written (resolve e (arg_out a)))] else [])"
  by (simp add: encode_def Let_def)

lemma encode_result:
  "snd (encode a e pngs pre pad) =
     (if subprocess_run e (ffmpeg_cmd a e pre pad) \<noteq> 0
      then Inl (EncodeError (subprocess_run e (ffmpeg_cmd a e pre pad)))
      else if output_ok a e then Inr ()
      else Inl OutputVerificationError)"
  by (simp add: encode_def Let_def)

lemma main_encode:
  assumes "is_dir e (arg_indir a)" "collect_pngs a e \<noteq> []" "which e ''ffmpeg''"
    "resolve_scheme a (collect_pngs a e) = Inr (pre, pad)"
  shows "main a e = (Which ''ffmpeg'' # fst (encode a e (collect_pngs a e) pre pad),
                 snd (encode a e (collect_pngs a e) pre pad))"
  using assms by (simp add: main_def Let_def split: prod.splits)

lemma main_reaches_encoder:
  assumes "Run cmd \<in> set (fst (main a e))"
  shows "\<exists>pre pad. is_dir e (arg_indir a) \<and> collect_pngs a e \<noteq> [] \<and> which e ''ffmpeg''
     \<and> resolve_scheme a (collect_pngs a e) = Inr (pre, pad) \<and> cmd = ffmpeg_cmd a e pre pad"
proof -
  have 1: "is_dir e (arg_indir a)" "collect_pngs a e \<noteq> []" "which e ''ffmpeg''"
    using assms by (auto simp: main_def Let_def split: if_splits)
  then obtain pre pad where 2: "resolve_scheme a (collect_pngs a e) = Inr (pre, pad)"
    using assms by (cases "resolve_scheme a (collect_pngs a e)") (auto simp: main_def Let_def)
  have "cmd = ffmpeg_cmd a e pre pad"
    using assms main_encode[OF 1 2] by (auto simp: encode_trace split: if_splits)
  with 1 2 show ?thesis by blast
qed

lemma ok_written_only_after_verification:
  assumes "Print (Ok_written p) \<in> set (fst (main a e))"
  shows "output_ok a e \<and> snd (main a e) = Inr () \<and> p = resolve e (arg_out a)"
proof -
  have 1: "is_dir e (arg_indir a)" "collect_pngs a e \<noteq> []" "which e ''ffmpeg''"
    using assms by (auto simp: main_def Let_def split: if_splits)
  then obtain pre pad where 2: "resolve_scheme a (collect_pngs a e) = Inr (pre, pad)"
    using assms by (cases "resolve_scheme a (collect_pngs a e)") (auto simp: main_def Let_def)
  show ?thesis
    using assms main_encode[OF 1 2] by (auto simp: encode_trace encode_result split: if_splits)
qed

lemma gaps_nonempty_iff:
  "gaps nums \<noteq> [] \<longleftrightarrow> (\<exists>i. Suc i < length nums \<and> nums ! Suc i \<noteq> nums ! i + 1)"
proof -
  have z: "gaps nums \<noteq> [] \<longleftrightarrow> (\<exists>p \<in> set (zip nums (tl nums)). snd p \<noteq> fst p + 1)"
    by (simp add: gaps_def filter_empty_conv case_prod_beta)
  show ?thesis
  proof
    assume "gaps nums \<noteq> []"
    then obtain i where i: "i < length (tl nums)" "tl nums ! i \<noteq> nums ! i + 1"
      unfolding z by (auto simp: set_zip)
    then have "Suc i < length nums \<and> nums ! Suc i \<noteq> nums ! i + 1"
      by (simp add: nth_tl)
    then show "\<exists>i. Suc i < length nums \<and> nums ! Suc i \<noteq> nums ! i + 1" ..
  next
    assume "\<exists>i. Suc i < length nums \<and> nums ! Suc i \<noteq> nums ! i + 1"
    then obtain i where i: "Suc i < length nums" "nums ! Suc i \<noteq> nums ! i + 1" by blast
    then have l: "i < length (zip nums (tl nums))" by simp
    have "zip nums (tl nums) ! i = (nums ! i, nums ! Suc i)"
      using i(1) by (simp add: nth_tl)
    then have "(nums ! i, nums ! Suc i) \<in> set (zip nums (tl nums))"
      using l nth_mem by metis
    then show "gaps nums \<noteq> []" unfolding z using i(2) by force
  qed
qed

section \<open>The claims\<close>

text \<open>
  Claim C1. The names are tried in sorted order against the pattern of
  \<^verbatim>\<open>infer_padding_and_prefix\<close>, and the result is group 1 and the length of group 2 of
  the first name that matches, whatever the names after it look like. In that name the
  prefix is followed by the digit run, one digit at least, and the digit run by
  \<^verbatim>\<open>.png\<close> in any letter case, at the end of the name in the sense of \<^verbatim>\<open>$\<close>; the
  prefix is the shortest possible (it does not end in a digit) and holds no line feed.
\<close>

theorem infer_returns_first_match:
  assumes "sort files = us @ f # vs" and "\<forall>u \<in> set us. r_match u = None"
    and "r_match f = Some (p, ds)"
  shows "infer_padding_and_prefix files = Inr (p, int (length ds))
    \<and> (\<exists>e. f = p @ ds @ e \<and> lower (take 4 e) = ''.png'' \<and> at_end (drop 4 e))
    \<and> ds \<noteq> [] \<and> (\<forall>d \<in> set ds. is_digit d)
    \<and> newline \<notin> set p \<and> (p = [] \<or> \<not> is_digit (last p))"
proof -
  have "infer_padding_and_prefix files = Inr (p, int (length ds))"
    unfolding infer_padding_and_prefix_def assms(1)
    using assms(2,3) by (rule infer_loop_first)
  moreover have "(\<exists>e. f = p @ ds @ e \<and> match_ext e) \<and> ds \<noteq> [] \<and> (\<forall>d \<in> set ds. is_digit d)
     \<and> newline \<notin> set p \<and> (p = [] \<or> \<not> is_digit (last p))"
    using assms(3) unfolding r_match_iff .
  ultimately show ?thesis unfolding match_ext_iff by blast
qed

theorem infer_returns_first_match_witness:
  "sort [''b002.png'', ''a1.png'', ''README.png'', ''b003.png'']
     = [''README.png''] @ ''a1.png'' # [''b002.png'', ''b003.png'']
   \<and> r_match ''README.png'' = None \<and> r_match ''a1.png'' = Some (''a'', ''1'')
   \<and> infer_padding_and_prefix [''b002.png'', ''a1.png'', ''README.png'', ''b003.png''] = Inr (''a'', 1)"
proof -
  have 1: "sort [''b002.png'', ''a1.png'', ''README.png'', ''b003.png'']
     = [''README.png''] @ ''a1.png'' # [''b002.png'', ''b003.png'']" by code_simp
  have 2: "r_match ''README.png'' = None" by code_simp
  then have 3: "\<forall>u \<in> set [''README.png'']. r_match u = None" by simp
  have 4: "r_match ''a1.png'' = Some (''a'', ''1'')" by code_simp
  show ?thesis using infer_returns_first_match[OF 1 3 4] 1 2 4 by simp
qed

text \<open>
  Claim C2 as the specification states it fails for the directory that holds
  \<^verbatim>\<open>F1.png\<close> and \<^verbatim>\<open>f10.png\<close>: the inferred scheme is the prefix \<^verbatim>\<open>F\<close> with padding
  width 1, both files are matched again, the largest frame number 10 has two digits,
  and in \<^verbatim>\<open>f10.png\<close> the digit run is preceded by \<^verbatim>\<open>f\<close>, not by \<^verbatim>\<open>F\<close>.
\<close>

theorem naming_scheme_invariant_counterexample:
  "infer_padding_and_prefix [''F1.png'', ''f10.png''] = Inr (''F'', 1)
   \<and> sorted_nums ''F'' [''F1.png'', ''f10.png''] = [1, 10]
   \<and> \<not> pad_covers_largest (sorted_nums ''F'' [''F1.png'', ''f10.png'']) 1
   \<and> \<not> prefix_exactly_precedes [''F1.png'', ''f10.png''] ''F''"
  by code_simp

text \<open>
  Claim C2, amended. The padding width of an inferred scheme is the length of the digit
  run of the first name in sorted order that matches; it is at least 1 and at least the
  number of digits of that name's frame number, and in that name the prefix exactly
  precedes the digit run. Whatever the prefix, inferred or given, in every name that is
  matched again the prefix precedes the digit run up to letter case, the extension
  follows the run, and the frame number has no more digits than the run.
\<close>

theorem inferred_scheme_properties:
  assumes "infer_padding_and_prefix files = Inr (pre, pad)"
  shows "1 \<le> pad
    \<and> (\<exists>us f vs ds. sort files = us @ f # vs \<and> (\<forall>u \<in> set us. r_match u = None)
          \<and> r_match f = Some (pre, ds) \<and> num_re_match pre f = Some ds
          \<and> take (length pre) f = pre \<and> int (length ds) = pad
          \<and> int (length (str_int (int_of_digits ds))) \<le> pad)
    \<and> (\<forall>given g cs. num_re_match given g = Some cs \<longrightarrow>
          lower (take (length given) g) = lower given
          \<and> take (length cs) (drop (length given) g) = cs
          \<and> cs \<noteq> [] \<and> (\<forall>d \<in> set cs. is_digit d)
          \<and> match_ext (drop (length given + length cs) g)
          \<and> length (str_int (int_of_digits cs)) \<le> length cs)"
proof -
  from assms obtain us f vs ds where
    h: "sort files = us @ f # vs" "\<forall>u \<in> set us. r_match u = None" "r_match f = Some (pre, ds)"
       "pad = int (length ds)"
    unfolding infer_padding_and_prefix_def using infer_loop_success by blast
  from h(3) obtain e where e: "f = pre @ ds @ e" "ds \<noteq> []" "\<forall>d \<in> set ds. is_digit d"
    unfolding r_match_iff by blast
  have 1: "1 \<le> pad" using h(4) e(2) by (cases ds) simp_all
  have 2: "num_re_match pre f = Some ds" using h(3) by (rule r_match_num_re_match)
  have 3: "take (length pre) f = pre" using e(1) by simp
  have 4: "int (length (str_int (int_of_digits ds))) \<le> pad"
    using frame_number_digits[OF e(2,3)] h(4) by simp
  have 5: "lower (take (length given) g) = lower given
          \<and> take (length cs) (drop (length given) g) = cs
          \<and> cs \<noteq> [] \<and> (\<forall>d \<in> set cs. is_digit d)
          \<and> match_ext (drop (length given + length cs) g)
          \<and> length (str_int (int_of_digits cs)) \<le> length cs"
    if m: "num_re_match given g = Some cs" for given g cs
  proof -
    from m obtain q x where q: "g = q @ cs @ x" "length q = length given" "lower q = lower given"
        "match_ext x" "cs \<noteq> []" "\<forall>d \<in> set cs. is_digit d"
      unfolding num_re_match_iff by blast
    have "take (length given) g = q" using q(1,2) by simp
    moreover have "drop (length given) g = cs @ x" using q(1,2) by simp
    moreover have "drop (length given + length cs) g = x" using q(1,2) by simp
    ultimately show ?thesis using q frame_number_digits[OF q(5,6)] by simp
  qed
  show ?thesis using 1 2 3 4 5 h by blast
qed

theorem inferred_scheme_witness:
  "infer_padding_and_prefix [''F1.png'', ''f10.png''] = Inr (''F'', 1)
   \<and> num_re_match ''F'' ''f10.png'' = Some ''10''
   \<and> lower (take (length ''F'') ''f10.png'') = lower ''F''
   \<and> take (length ''10'') (drop (length ''F'') ''f10.png'') = ''10''
   \<and> match_ext (drop (length ''F'' + length ''10'') ''f10.png'')"
proof -
  have 1: "infer_padding_and_prefix [''F1.png'', ''f10.png''] = Inr (''F'', 1)" by code_simp
  have 2: "num_re_match ''F'' ''f10.png'' = Some ''10''" by code_simp
  show ?thesis using inferred_scheme_properties[OF 1] 1 2 by blast
qed

text \<open>
  Claim C3. The gap warning is raised exactly when the sorted sequence has at least two
  numbers and some number is not its predecessor plus one. For \<open>[3,4,5,7,8]\<close> the one
  gap found is the one that ends at 7, and \<open>[1,2,3,4]\<close> raises no warning. In a run
  that reaches this step the warning is printed exactly in that case, the encoder is
  started whether or not it was printed, and the run can only end as the encoder and
  the check of its output decide.
\<close>

theorem gap_detection_warns_and_continues:
  "(gap_warning nums \<longleftrightarrow>
      2 \<le> length nums \<and> (\<exists>i. Suc i < length nums \<and> nums ! Suc i \<noteq> nums ! i + 1))
   \<and> gaps [3, 4, 5, 7, 8] = [7] \<and> gap_warning [3, 4, 5, 7, 8] \<and> \<not> gap_warning [1, 2, 3, 4]
   \<and> (\<forall>pre pad. is_dir e (arg_indir a) \<and> collect_pngs a e \<noteq> [] \<and> which e ''ffmpeg''
          \<and> resolve_scheme a (collect_pngs a e) = Inr (pre, pad) \<longrightarrow>
        (Print Warn_gaps \<in> set (fst (main a e)) \<longleftrightarrow> gap_warning (sorted_nums pre (collect_pngs a e)))
        \<and> Run (ffmpeg_cmd a e pre pad) \<in> set (fst (main a e))
        \<and> snd (main a e) \<in> {Inr (), Inl OutputVerificationError,
                                Inl (EncodeError (subprocess_run e (ffmpeg_cmd a e pre pad)))})"
proof -
  have 1: "gap_warning nums \<longleftrightarrow>
      2 \<le> length nums \<and> (\<exists>i. Suc i < length nums \<and> nums ! Suc i \<noteq> nums ! i + 1)"
    by (simp add: gap_warning_def gaps_nonempty_iff)
  have 2: "gaps [3, 4, 5, 7, 8] = [7]" by (simp add: gaps_def)
  have 3: "gap_warning [3, 4, 5, 7, 8]" by (simp add: gap_warning_def gaps_def)
  have 4: "\<not> gap_warning [1, 2, 3, 4]" by (simp add: gap_warning_def gaps_def)
  have 5: "(Print Warn_gaps \<in> set (fst (main a e)) \<longleftrightarrow> gap_warning (sorted_nums pre (collect_pngs a e)))
        \<and> Run (ffmpeg_cmd a e pre pad) \<in> set (fst (main a e))
        \<and> snd (main a e) \<in> {Inr (), Inl OutputVerificationError,
                                Inl (EncodeError (subprocess_run e (ffmpeg_cmd a e pre pad)))}"
    if h: "is_dir e (arg_indir a)" "collect_pngs a e \<noteq> []" "which e ''ffmpeg''"
          "resolve_scheme a (collect_pngs a e) = Inr (pre, pad)" for pre pad
    by (simp add: main_encode[OF h] encode_trace encode_result)
  show ?thesis using 1 2 3 4 5 by blast
qed

theorem gap_detection_witness:
  "is_dir (example_platform [''f3.png'', ''f4.png'', ''f5.png'', ''f7.png'', ''f8.png''] 0 (Some 4096)) (arg_indir example_args)
   \<and> collect_pngs example_args (example_platform [''f3.png'', ''f4.png'', ''f5.png'', ''f7.png'', ''f8.png''] 0 (Some 4096)) \<noteq> []
   \<and> which (example_platform [''f3.png'', ''f4.png'', ''f5.png'', ''f7.png'', ''f8.png''] 0 (Some 4096)) ''ffmpeg''
   \<and> resolve_scheme example_args (collect_pngs example_args (example_platform [''f3.png'', ''f4.png'', ''f5.png'', ''f7.png'', ''f8.png''] 0 (Some 4096))) = Inr (''f'', 1)
   \<and> sorted_nums ''f'' (collect_pngs example_args (example_platform [''f3.png'', ''f4.png'', ''f5.png'', ''f7.png'', ''f8.png''] 0 (Some 4096))) = [3, 4, 5, 7, 8]
   \<and> Print Warn_gaps \<in> set (fst (main example_args (example_platform [''f3.png'', ''f4.png'', ''f5.png'', ''f7.png'', ''f8.png''] 0 (Some 4096))))
   \<and> Run (ffmpeg_cmd example_args (example_platform [''f3.png'', ''f4.png'', ''f5.png'', ''f7.png'', ''f8.png''] 0 (Some 4096)) ''f'' 1)
       \<in> set (fst (main example_args (example_platform [''f3.png'', ''f4.png'', ''f5.png'', ''f7.png'', ''f8.png''] 0 (Some 4096))))"
proof -
  let ?e = "example_platform [''f3.png'', ''f4.png'', ''f5.png'', ''f7.png'', ''f8.png''] 0 (Some 4096)"
  have 1: "is_dir ?e (arg_indir example_args)" by code_simp
  have 2: "collect_pngs example_args ?e \<noteq> []" by code_simp
  have 3: "which ?e ''ffmpeg''" by code_simp
  have 4: "resolve_scheme example_args (collect_pngs example_args ?e) = Inr (''f'', 1)" by code_simp
  have 5: "sorted_nums ''f'' (collect_pngs example_args ?e) = [3, 4, 5, 7, 8]" by code_simp
  have 6: "gap_warning [3, 4, 5, 7, 8]" by (simp add: gap_warning_def gaps_def)
  have "(Print Warn_gaps \<in> set (fst (main example_args ?e))
          \<longleftrightarrow> gap_warning (sorted_nums ''f'' (collect_pngs example_args ?e)))
        \<and> Run (ffmpeg_cmd example_args ?e ''f'' 1) \<in> set (fst (main example_args ?e))"
    using gap_detection_warns_and_continues[of "[3, 4, 5, 7, 8]" ?e example_args] 1 2 3 4
    by blast
  then show ?thesis using 1 2 3 4 5 6 by simp
qed

text \<open>
  Claim C4. When the encoder exits with status zero and the output path does not exist
  or has size zero, the run ends with \<open>OutputVerificationError\<close> and a non-zero exit
  status. In any run, the success message is printed only when the output exists with a
  size above zero, and the run then succeeds; after an exit with status zero and with
  such an output, the success message with the resolved path is the last line.
\<close>

theorem output_is_verified_after_success:
  "(Run cmd \<in> set (fst (main a e)) \<and> subprocess_run e cmd = 0 \<and> \<not> output_ok a e \<longrightarrow>
      snd (main a e) = Inl OutputVerificationError \<and> exit_status (snd (main a e)) \<noteq> 0)
   \<and> (\<forall>p. Print (Ok_written p) \<in> set (fst (main a e)) \<longrightarrow>
        output_ok a e \<and> snd (main a e) = Inr () \<and> p = resolve e (arg_out a))
   \<and> (Run cmd \<in> set (fst (main a e)) \<and> subprocess_run e cmd = 0 \<and> output_ok a e \<longrightarrow>
        snd (main a e) = Inr () \<and> exit_status (snd (main a e)) = 0
        \<and> last (fst (main a e)) = Print (Ok_written (resolve e (arg_out a))))"
proof -
  have 1: "snd (main a e) = Inl OutputVerificationError \<and> exit_status (snd (main a e)) \<noteq> 0"
    if h: "Run cmd \<in> set (fst (main a e))" "subprocess_run e cmd = 0" "\<not> output_ok a e"
  proof -
    obtain pre pad where r: "is_dir e (arg_indir a)" "collect_pngs a e \<noteq> []" "which e ''ffmpeg''"
      "resolve_scheme a (collect_pngs a e) = Inr (pre, pad)" and c: "cmd = ffmpeg_cmd a e pre pad"
      using main_reaches_encoder[OF h(1)] by blast
    show ?thesis using h(2,3) c by (simp add: main_encode[OF r] encode_result exit_status_def)
  qed
  have 2: "snd (main a e) = Inr () \<and> exit_status (snd (main a e)) = 0
        \<and> last (fst (main a e)) = Print (Ok_written (resolve e (arg_out a)))"
    if h: "Run cmd \<in> set (fst (main a e))" "subprocess_run e cmd = 0" "output_ok a e"
  proof -
    obtain pre pad where r: "is_dir e (arg_indir a)" "collect_pngs a e \<noteq> []" "which e ''ffmpeg''"
      "resolve_scheme a (collect_pngs a e) = Inr (pre, pad)" and c: "cmd = ffmpeg_cmd a e pre pad"
      using main_reaches_encoder[OF h(1)] by blast
    show ?thesis using h(2,3) c
      by (simp add: main_encode[OF r] encode_result encode_trace exit_status_def)
  qed
  show ?thesis using 1 2 ok_written_only_after_verification[of _ a e] by blast
qed

theorem output_verification_witness:
  "Run (ffmpeg_cmd example_args (example_platform [''frame-00000.png'', ''frame-00001.png''] 0 (Some 0)) ''frame-'' 5)
     \<in> set (fst (main example_args (example_platform [''frame-00000.png'', ''frame-00001.png''] 0 (Some 0))))
   \<and> subprocess_run (example_platform [''frame-00000.png'', ''frame-00001.png''] 0 (Some 0))
       (ffmpeg_cmd example_args (example_platform [''frame-00000.png'', ''frame-00001.png''] 0 (Some 0)) ''frame-'' 5) = 0
   \<and> \<not> output_ok example_args (example_platform [''frame-00000.png'', ''frame-00001.png''] 0 (Some 0))
   \<and> snd (main example_args (example_platform [''frame-00000.png'', ''frame-00001.png''] 0 (Some 0)))
       = Inl OutputVerificationError"
proof -
  let ?e = "example_platform [''frame-00000.png'', ''frame-00001.png''] 0 (Some 0)"
  let ?c = "ffmpeg_cmd example_args ?e ''frame-'' 5"
  have 1: "Run ?c \<in> set (fst (main example_args ?e))" by code_simp
  have 2: "subprocess_run ?e ?c = 0" by code_simp
  have 3: "\<not> output_ok example_args ?e" by code_simp
  show ?thesis using output_is_verified_after_success[of ?c example_args ?e] 1 2 3 by blast
qed

text \<open>
  Claim C5. When the encoder that the run started exits with a non-zero status, the run
  ends with \<open>EncodeError\<close> carrying that status and exits non-zero, it prints no success
  message, the encoder has been started exactly once, and the state of the output path
  makes no difference to any of this.
\<close>

theorem encoder_failure_is_fatal:
  assumes "Run cmd \<in> set (fst (main a e))" and "subprocess_run e cmd \<noteq> 0"
  shows "snd (main a e) = Inl (EncodeError (subprocess_run e cmd))
    \<and> exit_status (snd (main a e)) \<noteq> 0
    \<and> (\<forall>p. Print (Ok_written p) \<notin> set (fst (main a e)))
    \<and> filter is_run (fst (main a e)) = [Run cmd]
    \<and> (\<forall>s. main a (e\<lparr>stat_size := s\<rparr>) = main a e)"
proof -
  obtain pre pad where 1: "is_dir e (arg_indir a)" "collect_pngs a e \<noteq> []" "which e ''ffmpeg''"
    "resolve_scheme a (collect_pngs a e) = Inr (pre, pad)" and c: "cmd = ffmpeg_cmd a e pre pad"
    using main_reaches_encoder[OF assms(1)] by blast
  note m = main_encode[OF 1]
  have r: "snd (main a e) = Inl (EncodeError (subprocess_run e cmd))"
    using assms(2) c by (simp add: m encode_result)
  have t: "fst (main a e) = Which ''ffmpeg'' #
      (if gap_warning (sorted_nums pre (collect_pngs a e)) then [Print Warn_gaps] else []) @
      [Print (Info_running cmd), Run cmd]"
    using assms(2) c by (simp add: m encode_trace)
  have "main a (e\<lparr>stat_size := s\<rparr>) = main a e" for s
  proof -
    let ?e = "e\<lparr>stat_size := s\<rparr>"
    have cp: "collect_pngs a ?e = collect_pngs a e" by (simp add: collect_pngs_def)
    have tc: "ffmpeg_cmd a ?e pre pad = ffmpeg_cmd a e pre pad" by (simp add: ffmpeg_cmd_def)
    have 2: "is_dir ?e (arg_indir a)" "collect_pngs a ?e \<noteq> []" "which ?e ''ffmpeg''"
      "resolve_scheme a (collect_pngs a ?e) = Inr (pre, pad)"
      using 1 by (simp_all add: cp)
    show ?thesis
      using assms(2) c
      by (simp add: m main_encode[OF 2] cp tc encode_trace encode_result prod_eq_iff)
  qed
  then show ?thesis using r t by (simp add: exit_status_def is_run_def)
qed

theorem encoder_failure_witness:
  "Run (ffmpeg_cmd example_args (example_platform [''frame-00000.png'', ''frame-00001.png''] 1 (Some 4096)) ''frame-'' 5)
     \<in> set (fst (main example_args (example_platform [''frame-00000.png'', ''frame-00001.png''] 1 (Some 4096))))
   \<and> snd (main example_args (example_platform [''frame-00000.png'', ''frame-00001.png''] 1 (Some 4096)))
       = Inl (EncodeError 1)"
proof -
  let ?e = "example_platform [''frame-00000.png'', ''frame-00001.png''] 1 (Some 4096)"
  let ?c = "ffmpeg_cmd example_args ?e ''frame-'' 5"
  have 1: "Run ?c \<in> set (fst (main example_args ?e))" by code_simp
  have 2: "subprocess_run ?e ?c \<noteq> 0" by code_simp
  have 3: "subprocess_run ?e ?c = 1" by code_simp
  show ?thesis using encoder_failure_is_fatal[OF 1 2] 1 3 by simp
qed

text \<open>
  Claim C6. When the input directory exists and none of its entries has a suffix that
  is \<^verbatim>\<open>.png\<close> up to letter case, the run ends with \<open>EmptyInputError\<close> and a non-zero
  exit status before anything else has happened: the encoder has neither been searched
  for nor been started.
\<close>

theorem empty_input_fails_before_any_process:
  assumes "is_dir e (arg_indir a)"
    and "\<forall>f \<in> set (iterdir e (arg_indir a)). lower (suffix f) \<noteq> ''.png''"
  shows "main a e = ([], Inl EmptyInputError) \<and> exit_status (snd (main a e)) \<noteq> 0
    \<and> Which ''ffmpeg'' \<notin> set (fst (main a e)) \<and> (\<forall>cmd. Run cmd \<notin> set (fst (main a e)))"
proof -
  have "collect_pngs a e = []" using assms(2) by (simp add: collect_pngs_empty)
  then have "main a e = ([], Inl EmptyInputError)" using assms(1) by (simp add: main_def)
  then show ?thesis by (simp add: exit_status_def)
qed

theorem empty_input_witness:
  "is_dir (example_platform [''notes.txt'', ''.png''] 0 None) (arg_indir example_args)
   \<and> collect_pngs example_args (example_platform [''notes.txt'', ''.png''] 0 None) = []
   \<and> main example_args (example_platform [''notes.txt'', ''.png''] 0 None) = ([], Inl EmptyInputError)"
proof -
  let ?e = "example_platform [''notes.txt'', ''.png''] 0 None"
  have 1: "is_dir ?e (arg_indir example_args)" by code_simp
  have 2: "\<forall>f \<in> set (iterdir ?e (arg_indir example_args)). lower (suffix f) \<noteq> ''.png''"
    by code_simp
  have 3: "collect_pngs example_args ?e = []" by code_simp
  show ?thesis using empty_input_fails_before_any_process[OF 1 2] 1 3 by simp
qed

text \<open>
  Claim C7. The sequence is the sorted list of the integer values of the digit runs of
  exactly those candidates that the pattern matches, one value for each of them; a
  candidate that does not match changes nothing. An enumerated candidate matches
  exactly when it is the prefix up to letter case, then a non-empty run of digits, then
  \<^verbatim>\<open>.png\<close> in any letter case, with nothing before or after. The value of a digit run
  is its number: leading zeros do not count.
\<close>

theorem sequence_extraction:
  "sorted_nums pre pngs
     = sort (List.map_filter (\<lambda>f. map_option int_of_digits (num_re_match pre f)) pngs)
   \<and> sorted (sorted_nums pre pngs)
   \<and> (num_re_match pre g = None \<longrightarrow> sorted_nums pre (g # pngs) = sorted_nums pre pngs)
   \<and> (lower (suffix f) = ''.png'' \<longrightarrow>
        (num_re_match pre f = Some ds \<longleftrightarrow>
           (\<exists>q x. f = q @ ds @ x \<and> length q = length pre \<and> lower q = lower pre \<and> lower x = ''.png'')
           \<and> ds \<noteq> [] \<and> (\<forall>d \<in> set ds. is_digit d)))
   \<and> int_of_digits (replicate k (CHR ''0'') @ str_nat n) = int n"
proof -
  have 1: "sorted_nums pre pngs
     = sort (List.map_filter (\<lambda>f. map_option int_of_digits (num_re_match pre f)) pngs)"
    by (rule sorted_nums_eq)
  have 2: "sorted (sorted_nums pre pngs)" by (simp add: sorted_nums_def)
  have 3: "num_re_match pre g = None \<longrightarrow> sorted_nums pre (g # pngs) = sorted_nums pre pngs"
    by (simp add: sorted_nums_def)
  have 4: "int_of_digits (replicate k (CHR ''0'') @ str_nat n) = int n"
    by (simp add: int_of_digits_zeros int_of_digits_str_nat)
  show ?thesis using 1 2 3 4 num_re_match_enumerated[of f pre ds] by blast
qed

theorem sequence_extraction_witness:
  "lower (suffix ''CLIP_010.PNG'') = ''.png''
   \<and> num_re_match ''clip_'' ''CLIP_010.PNG'' = Some ''010''
   \<and> num_re_match ''clip_'' ''notes.png'' = None
   \<and> sorted_nums ''clip_'' [''CLIP_010.PNG'', ''clip_002.png'', ''clip_1.png'']
       = sorted_nums ''clip_'' [''notes.png'', ''CLIP_010.PNG'', ''clip_002.png'', ''clip_1.png'']
   \<and> sorted_nums ''clip_'' [''notes.png'', ''CLIP_010.PNG'', ''clip_002.png'', ''clip_1.png''] = [1, 2, 10]
   \<and> (\<exists>q x. ''CLIP_010.PNG'' = q @ ''010'' @ x \<and> length q = length ''clip_''
          \<and> lower q = lower ''clip_'' \<and> lower x = ''.png'')"
proof -
  have 1: "lower (suffix ''CLIP_010.PNG'') = ''.png''" by code_simp
  have 2: "num_re_match ''clip_'' ''CLIP_010.PNG'' = Some ''010''" by code_simp
  have 3: "num_re_match ''clip_'' ''notes.png'' = None" by code_simp
  have 4: "sorted_nums ''clip_'' [''notes.png'', ''CLIP_010.PNG'', ''clip_002.png'', ''clip_1.png''] = [1, 2, 10]"
    by code_simp
  note t = sequence_extraction[of "''clip_''" "[''CLIP_010.PNG'', ''clip_002.png'', ''clip_1.png'']"
      "''notes.png''" "''CLIP_010.PNG''" "''010''" 0 0]
  have 5: "sorted_nums ''clip_'' [''CLIP_010.PNG'', ''clip_002.png'', ''clip_1.png'']
       = sorted_nums ''clip_'' [''notes.png'', ''CLIP_010.PNG'', ''clip_002.png'', ''clip_1.png'']"
    using t 3 by simp
  have 6: "\<exists>q x. ''CLIP_010.PNG'' = q @ ''010'' @ x \<and> length q = length ''clip_''
          \<and> lower q = lower ''clip_'' \<and> lower x = ''.png''"
    using t 1 2 by blast
  show ?thesis using 1 2 3 4 5 6 by blast
qed

text \<open>
  Claim C8. \<^verbatim>\<open>infer_padding_and_prefix\<close> fails exactly when no name matches the pattern,
  and \<open>InferenceError\<close> is the only error it has. A name fails to match exactly when it
  cannot be cut into a prefix without line feed, a non-empty run of digits and
  \<^verbatim>\<open>.png\<close> in any letter case at the end of the name in the sense of \<^verbatim>\<open>$\<close>.
\<close>

theorem infer_fails_iff_no_match:
  "(infer_padding_and_prefix files = Inl InferenceError \<longleftrightarrow> (\<forall>f \<in> set files. r_match f = None))
   \<and> (\<forall>err. infer_padding_and_prefix files = Inl err \<longrightarrow> err = InferenceError)
   \<and> (r_match f = None \<longleftrightarrow>
        \<not> (\<exists>p ds e. f = p @ ds @ e \<and> newline \<notin> set p \<and> ds \<noteq> [] \<and> (\<forall>d \<in> set ds. is_digit d)
              \<and> lower (take 4 e) = ''.png'' \<and> at_end (drop 4 e)))"
proof -
  have "set (sort files) = set files" by simp
  then have 1: "infer_padding_and_prefix files = Inl err
      \<longleftrightarrow> err = InferenceError \<and> (\<forall>f \<in> set files. r_match f = None)" for err
    unfolding infer_padding_and_prefix_def infer_loop_fail by simp
  have 2: "r_match f = None \<longleftrightarrow>
        \<not> (\<exists>p ds e. f = p @ ds @ e \<and> newline \<notin> set p \<and> ds \<noteq> [] \<and> (\<forall>d \<in> set ds. is_digit d)
              \<and> lower (take 4 e) = ''.png'' \<and> at_end (drop 4 e))"
    using r_match_exists_iff[of f] unfolding match_ext_iff by blast
  show ?thesis using 1 2 by blast
qed

theorem infer_fails_witness:
  "r_match ''README.png'' = None \<and> r_match ''cover.png'' = None
   \<and> infer_padding_and_prefix [''cover.png'', ''README.png''] = Inl InferenceError"
proof -
  have 1: "r_match ''README.png'' = None" by code_simp
  have 2: "r_match ''cover.png'' = None" by code_simp
  have "\<forall>f \<in> set [''cover.png'', ''README.png'']. r_match f = None" using 1 2 by simp
  then have "infer_padding_and_prefix [''cover.png'', ''README.png''] = Inl InferenceError"
    using infer_fails_iff_no_match[of "[''cover.png'', ''README.png'']"] by blast
  with 1 2 show ?thesis by simp
qed

text \<open>
  Claim C9. For the files \<^verbatim>\<open>clip_001.png\<close> to \<^verbatim>\<open>clip_010.png\<close> the inferred scheme is
  the prefix \<^verbatim>\<open>clip_\<close> with padding width 3, and the pattern built from it is
  \<^verbatim>\<open>clip_%03d.png\<close>.
\<close>

theorem clip_example:
  "infer_padding_and_prefix
     [''clip_001.png'', ''clip_002.png'', ''clip_003.png'', ''clip_004.png'', ''clip_005.png'',
      ''clip_006.png'', ''clip_007.png'', ''clip_008.png'', ''clip_009.png'', ''clip_010.png'']
     = Inr (''clip_'', 3)
   \<and> build_pattern ''clip_'' 3 = ''clip_%03d.png''"
  by code_simp

text \<open>
  Claim C10. When exactly one of prefix and padding width is given on the command line,
  the scheme is inferred and the whole run is the run in which neither was given; when
  both are given, they are the scheme.
\<close>

theorem explicit_scheme_needs_both:
  "((arg_prefix a = None) \<noteq> (arg_pad a = None) \<longrightarrow>
      resolve_scheme a pngs = infer_padding_and_prefix pngs
      \<and> main a e = main (a\<lparr>arg_prefix := None, arg_pad := None\<rparr>) e)
   \<and> (\<forall>p w. arg_prefix a = Some p \<and> arg_pad a = Some w \<longrightarrow> resolve_scheme a pngs = Inr (p, w))"
proof -
  let ?a = "a\<lparr>arg_prefix := None, arg_pad := None\<rparr>"
  have c: "collect_pngs ?a e = collect_pngs a e" by (simp add: collect_pngs_def)
  have n: "encode ?a e ps pre pad = encode a e ps pre pad" for ps pre pad
    by (simp add: encode_def ffmpeg_cmd_def output_ok_def Let_def)
  have r: "resolve_scheme ?a ps = infer_padding_and_prefix ps" for ps
    by (simp add: resolve_scheme_def)
  have i: "(arg_prefix a = None) \<noteq> (arg_pad a = None) \<Longrightarrow>
      resolve_scheme a ps = infer_padding_and_prefix ps" for ps
    by (auto simp: resolve_scheme_def)
  have "main a e = main ?a e" if h: "(arg_prefix a = None) \<noteq> (arg_pad a = None)"
    unfolding main_def Let_def c n r i[OF h] by simp
  moreover have "arg_prefix a = Some p \<and> arg_pad a = Some w \<longrightarrow> resolve_scheme a pngs = Inr (p, w)" for p w
    by (simp add: resolve_scheme_def)
  ultimately show ?thesis using i by blast
qed

theorem explicit_scheme_witness:
  "main (example_args\<lparr>arg_prefix := Some ''img''\<rparr>) (example_platform [''frame-00000.png'', ''frame-00001.png''] 0 (Some 4096))
     = main example_args (example_platform [''frame-00000.png'', ''frame-00001.png''] 0 (Some 4096))
   \<and> resolve_scheme (example_args\<lparr>arg_prefix := Some ''img''\<rparr>) [''frame-00000.png'', ''frame-00001.png'']
     = Inr (''frame-'', 5)"
proof -
  let ?a = "example_args\<lparr>arg_prefix := Some ''img''\<rparr>"
  have 1: "(arg_prefix ?a = None) \<noteq> (arg_pad ?a = None)" by (simp add: example_args_def)
  have 2: "?a\<lparr>arg_prefix := None, arg_pad := None\<rparr> = example_args" by (simp add: example_args_def)
  have 3: "infer_padding_and_prefix [''frame-00000.png'', ''frame-00001.png''] = Inr (''frame-'', 5)"
    by code_simp
  show ?thesis
    using explicit_scheme_needs_both[of ?a "[''frame-00000.png'', ''frame-00001.png'']"
        "example_platform [''frame-00000.png'', ''frame-00001.png''] 0 (Some 4096)"] 1 2 3
    by simp
qed

end
